theory Spec2Isabelle
  imports Complex_Main "HOL-Library.Word"
begin

unbundle bit_operations_syntax

section \<open>The TOTP service of \<open>src/service/totp.js\<close>\<close>

text \<open>
  The model follows the class \<open>TOTP\<close> method by method.

  \<^item> A \<open>Uint8Array\<close> is a list of 8-bit words. A JavaScript Number that the code only
    ever uses through the 32-bit operators (\<open>&\<close>, \<open>|\<close>, \<open>^\<close>, \<open>~\<close>, \<open><<\<close>,
    \<open>>>>\<close>) is a 32-bit word: it stands for the bit pattern, which the code reads
    signed after \<open>|\<close> and unsigned after \<open>>>> 0\<close>.
  \<^item> Every other Number (counter, timestamp, window, digits, period) is an integer.
    The code computes on doubles, so the model is an integer model with an explicit
    domain: a function whose double arithmetic the integers do not determine (a
    quotient or a sum that may round, a power of ten that is a fraction or not an
    exact double, a loop counter that may stall) returns \<open>Unmodelled\<close> there, which
    says nothing about the code. Where it returns \<open>Returns v\<close>, every step of the code
    is exact on doubles and \<open>v\<close> is the code's result.
  \<^item> A JavaScript string is a \<open>string\<close> holding its UTF-8 bytes, so an ASCII
    character is one \<open>char\<close> and every other code point is a run of bytes above 127.
\<close>

type_synonym u8 = "8 word"
type_synonym u32 = "32 word"

subsection \<open>Typed arrays and \<open>DataView\<close>\<close>

text \<open>\<open>new Uint8Array(n)\<close>: \<open>n\<close> zero bytes.\<close>

definition new_Uint8Array :: "nat \<Rightarrow> u8 list" where
  "new_Uint8Array n = replicate n 0"

text \<open>
  \<open>target.set(source, offset)\<close> copies \<open>source\<close> over \<open>target\<close> from \<open>offset\<close> on.
  The built-in raises a RangeError when the source does not fit; every call of the
  code passes a target it has just allocated large enough, and the model keeps the
  target's length in any case.
\<close>

definition typed_set :: "u8 list \<Rightarrow> u8 list \<Rightarrow> nat \<Rightarrow> u8 list" where
  "typed_set target source offset =
     take (length target) (take offset target @ source @ drop (offset + length source) target)"

text \<open>
  \<open>arr[i]\<close> on a typed array: the element, or \<open>undefined\<close> out of range.
\<close>

definition typed_get :: "u8 list \<Rightarrow> int \<Rightarrow> u8 option" where
  "typed_get arr i = (if 0 \<le> i \<and> i < int (length arr) then Some (arr ! nat i) else None)"

text \<open>
  The operand of a 32-bit operator: \<open>ToInt32\<close> of a byte is the byte, of
  \<open>undefined\<close> it is 0.
\<close>

definition toInt32 :: "u8 option \<Rightarrow> u32" where
  "toInt32 v = (case v of None \<Rightarrow> 0 | Some b \<Rightarrow> ucast b)"

text \<open>
  \<open>view.getUint32(off, false)\<close> and \<open>view.setUint32(off, v, false)\<close>: four bytes,
  big-endian. \<open>setUint32\<close> stores \<open>ToUint32\<close> of its argument, so the caller passes
  the value already reduced modulo \<open>2 ^ 32\<close>.
\<close>

definition getUint32 :: "u8 list \<Rightarrow> nat \<Rightarrow> u32" where
  "getUint32 view off =
     push_bit 24 (ucast (view ! off)) OR push_bit 16 (ucast (view ! (off + 1))) OR
     push_bit 8 (ucast (view ! (off + 2))) OR ucast (view ! (off + 3))"

definition setUint32 :: "u8 list \<Rightarrow> nat \<Rightarrow> u32 \<Rightarrow> u8 list" where
  "setUint32 view off v =
     view[off := ucast (drop_bit 24 v), off + 1 := ucast (drop_bit 16 v),
          off + 2 := ucast (drop_bit 8 v), off + 3 := ucast v]"

subsection \<open>32-bit helpers\<close>

definition rotateLeft :: "u32 \<Rightarrow> nat \<Rightarrow> u32" where
  "rotateLeft v amount = push_bit amount v OR drop_bit (32 - amount) v"

definition add32 :: "u32 \<Rightarrow> u32 \<Rightarrow> u32" where
  "add32 a b = a + b"

subsection \<open>SHA-1\<close>

type_synonym sha1_state = "u32 \<times> u32 \<times> u32 \<times> u32 \<times> u32"

definition sha1_init :: sha1_state where
  "sha1_init = (0x67452301, 0xEFCDAB89, 0x98BADCFE, 0x10325476, 0xC3D2E1F0)"

text \<open>
  Pre-processing: the zero-filled buffer of \<open>ceil((n + 9) / 64) * 64\<close> bytes, the
  data copied in, \<open>0x80\<close> behind it, and \<open>ml = 8 * n\<close> stored by \<open>setUint32\<close> in
  the last four bytes (so reduced modulo \<open>2 ^ 32\<close>).
\<close>

definition padded_length :: "nat \<Rightarrow> nat" where
  "padded_length n = ((n + 9 + 63) div 64) * 64"

definition sha1_pad :: "u8 list \<Rightarrow> u8 list" where
  "sha1_pad data =
     (let ml = length data * 8;
          paddedData = new_Uint8Array (padded_length (length data));
          paddedData = typed_set paddedData data 0;
          paddedData = paddedData[length data := 0x80]
      in setUint32 paddedData (length paddedData - 4) (word_of_nat ml))"

text \<open>The sixteen words of a chunk, then the sixty-four extended words.\<close>

definition sha1_extend :: "nat \<Rightarrow> u32 list \<Rightarrow> u32 list" where
  "sha1_extend i w =
     w @ [rotateLeft (w ! (i - 3) XOR w ! (i - 8) XOR w ! (i - 14) XOR w ! (i - 16)) 1]"

definition sha1_schedule :: "u8 list \<Rightarrow> nat \<Rightarrow> u32 list" where
  "sha1_schedule view chunk =
     fold sha1_extend [16 ..< 80] (map (\<lambda>i. getUint32 view (chunk + i * 4)) [0 ..< 16])"

definition sha1_round :: "u32 list \<Rightarrow> nat \<Rightarrow> sha1_state \<Rightarrow> sha1_state" where
  "sha1_round w i s =
     (case s of (a, b, c, d, e) \<Rightarrow>
        let (f, k) =
              (if i < 20 then ((b AND c) OR (NOT b AND d), 0x5A827999)
               else if i < 40 then (b XOR c XOR d, 0x6ED9EBA1)
               else if i < 60 then ((b AND c) OR (b AND d) OR (c AND d), 0x8F1BBCDC)
               else (b XOR c XOR d, 0xCA62C1D6));
            temp = add32 (add32 (rotateLeft a 5) f) (add32 (add32 e (w ! i)) k)
        in (temp, a, rotateLeft b 30, c, d))"

definition sha1_chunk :: "u8 list \<Rightarrow> nat \<Rightarrow> sha1_state \<Rightarrow> sha1_state" where
  "sha1_chunk view chunk h =
     (let w = sha1_schedule view chunk
      in case (h, fold (sha1_round w) [0 ..< 80] h) of
           ((h0, h1, h2, h3, h4), (a, b, c, d, e)) \<Rightarrow>
             (add32 h0 a, add32 h1 b, add32 h2 c, add32 h3 d, add32 h4 e))"

definition sha1 :: "u8 list \<Rightarrow> u8 list" where
  "sha1 data =
     (let paddedData = sha1_pad data;
          h = fold (\<lambda>k. sha1_chunk paddedData (k * 64)) [0 ..< length paddedData div 64] sha1_init
      in case h of (h0, h1, h2, h3, h4) \<Rightarrow>
           fold (\<lambda>(i, hi) result. setUint32 result (i * 4) hi)
             [(0, h0), (1, h1), (2, h2), (3, h3), (4, h4)] (new_Uint8Array 20))"


subsection \<open>HMAC\<close>

text \<open>
  \<open>key[i] ^ 0x5c\<close> stored into a \<open>Uint8Array\<close>: the low eight bits of the 32-bit
  result.
\<close>

definition hmac :: "u8 list \<Rightarrow> u8 list \<Rightarrow> u8 list" where
  "hmac key0 data =
     (let blockSize = 64;
          key = (if length key0 > blockSize then sha1 key0 else key0);
          key = (if length key < blockSize
                 then typed_set (new_Uint8Array blockSize) key 0 else key);
          oKeyPad = map (\<lambda>i. ucast (toInt32 (typed_get key (int i)) XOR 0x5c)) [0 ..< blockSize];
          iKeyPad = map (\<lambda>i. ucast (toInt32 (typed_get key (int i)) XOR 0x36)) [0 ..< blockSize];
          innerData = new_Uint8Array (length iKeyPad + length data);
          innerData = typed_set innerData iKeyPad 0;
          innerData = typed_set innerData data (length iKeyPad);
          innerHash = sha1 innerData;
          outerData = new_Uint8Array (length oKeyPad + length innerHash);
          outerData = typed_set outerData oKeyPad 0;
          outerData = typed_set outerData innerHash (length oKeyPad)
      in sha1 outerData)"

subsection \<open>Base32\<close>

definition alphabet :: string where
  "alphabet = ''ABCDEFGHIJKLMNOPQRSTUVWXYZ234567''"

text \<open>\<open>s.indexOf(c)\<close> for a one-character \<open>c\<close>: the first position, or \<open>-1\<close>.\<close>

fun indexOf_from :: "int \<Rightarrow> string \<Rightarrow> char \<Rightarrow> int" where
  "indexOf_from i [] c = - 1"
| "indexOf_from i (x # xs) c = (if x = c then i else indexOf_from (i + 1) xs c)"

definition indexOf :: "string \<Rightarrow> char \<Rightarrow> int" where
  "indexOf s c = indexOf_from 0 s c"

text \<open>\<open>encoded.replace(/=+$/, '')\<close>: the string without its trailing \<open>=\<close> signs.\<close>

definition strip_padding :: "string \<Rightarrow> string" where
  "strip_padding encoded = rev (dropWhile (\<lambda>c. c = CHR ''='') (rev encoded))"

text \<open>
  \<open>toUpperCase\<close> on the UTF-8 bytes. ASCII letters are mapped to their capitals.
  The table lists every code point outside ASCII whose upper-case form (Unicode
  SpecialCasing) contains an ASCII character, with that form. Every other code
  point outside ASCII has an upper-case form outside ASCII; its bytes are left
  as they are, which is enough here: the decoder only looks for the characters
  of \<open>alphabet\<close>.
\<close>

definition upper_ascii :: "char \<Rightarrow> char" where
  "upper_ascii c =
     (let n = (of_char c :: nat) in if 97 \<le> n \<and> n \<le> 122 then char_of (n - 32) else c)"

definition special_casing_table :: "(string \<times> string) list" where
  "special_casing_table =
     [([CHR 0xC3, CHR 0x9F], ''SS''),
      ([CHR 0xC4, CHR 0xB1], ''I''),
      ([CHR 0xC5, CHR 0x89], [CHR 0xCA, CHR 0xBC, CHR ''N'']),
      ([CHR 0xC5, CHR 0xBF], ''S''),
      ([CHR 0xC7, CHR 0xB0], [CHR ''J'', CHR 0xCC, CHR 0x8C]),
      ([CHR 0xE1, CHR 0xBA, CHR 0x96], [CHR ''H'', CHR 0xCC, CHR 0xB1]),
      ([CHR 0xE1, CHR 0xBA, CHR 0x97], [CHR ''T'', CHR 0xCC, CHR 0x88]),
      ([CHR 0xE1, CHR 0xBA, CHR 0x98], [CHR ''W'', CHR 0xCC, CHR 0x8A]),
      ([CHR 0xE1, CHR 0xBA, CHR 0x99], [CHR ''Y'', CHR 0xCC, CHR 0x8A]),
      ([CHR 0xE1, CHR 0xBA, CHR 0x9A], [CHR ''A'', CHR 0xCA, CHR 0xBE]),
      ([CHR 0xEF, CHR 0xAC, CHR 0x80], ''FF''),
      ([CHR 0xEF, CHR 0xAC, CHR 0x81], ''FI''),
      ([CHR 0xEF, CHR 0xAC, CHR 0x82], ''FL''),
      ([CHR 0xEF, CHR 0xAC, CHR 0x83], ''FFI''),
      ([CHR 0xEF, CHR 0xAC, CHR 0x84], ''FFL''),
      ([CHR 0xEF, CHR 0xAC, CHR 0x85], ''ST''),
      ([CHR 0xEF, CHR 0xAC, CHR 0x86], ''ST'')]"

definition special_casing :: "string \<Rightarrow> (string \<times> string) option" where
  "special_casing s = find (\<lambda>(src, dst). take (length src) s = src) special_casing_table"

function toUpperCase :: "string \<Rightarrow> string" where
  "toUpperCase [] = []"
| "toUpperCase (c # cs) =
     (case special_casing (c # cs) of
        Some (src, dst) \<Rightarrow> dst @ toUpperCase (drop (length src - 1) cs)
      | None \<Rightarrow> upper_ascii c # toUpperCase cs)"
  by pat_completeness auto
termination
  by (relation "measure length") auto

text \<open>
  The decoding loop. \<open>value\<close> is only ever the result of \<open><<\<close> and \<open>|\<close>, so it is a
  32-bit pattern and \<open><<\<close> drops what leaves the top; \<open>>>>\<close> shifts the pattern
  right. \<open>bits\<close> stays below 8 between characters.
\<close>

fun base32Decode_loop :: "string \<Rightarrow> u32 \<Rightarrow> nat \<Rightarrow> u8 list \<Rightarrow> u8 list" where
  "base32Decode_loop [] v bits decoded = decoded"
| "base32Decode_loop (char # rest) v bits decoded =
     (let index = indexOf alphabet char in
      if index = - 1 then base32Decode_loop rest v bits decoded
      else
        let v = push_bit 5 v OR word_of_int index;
            bits = bits + 5
        in if bits \<ge> 8
           then base32Decode_loop rest v (bits - 8)
                  (decoded @ [ucast (drop_bit (bits - 8) v AND 255)])
           else base32Decode_loop rest v bits decoded)"

definition base32Decode :: "string \<Rightarrow> u8 list" where
  "base32Decode encoded =
     (let cleanInput = toUpperCase (strip_padding encoded)
      in base32Decode_loop cleanInput 0 0 [])"

subsection \<open>Numbers and strings\<close>

text \<open>
  The outcome of an operation of the integer model: the code's result, or no
  statement about the code.
\<close>

datatype 'a outcome = Returns 'a | Unmodelled

text \<open>
  Every integer up to \<open>2 ^ 53\<close> in magnitude is a double. For integers up to
  \<open>2 ^ 51\<close> the arithmetic of the code is exact in the following sense: sums and
  differences of two of them are doubles, and \<open>Math.floor\<close> of the (rounded) double
  quotients \<open>a / 1000\<close> and \<open>a / 1000 / b\<close> is the floor of the exact quotient, because
  the exact quotient is an integer or lies further from the next integer than
  the rounding moves it.
\<close>

definition representable :: "int \<Rightarrow> bool" where
  "representable n \<longleftrightarrow> \<bar>n\<bar> \<le> 2 ^ 53"

definition exact :: "int \<Rightarrow> bool" where
  "exact n \<longleftrightarrow> \<bar>n\<bar> \<le> 2 ^ 51"

text \<open>
  \<open>intToBytes\<close>: \<open>value & 0xff\<close> is the low byte of the integer (\<open>ToInt32\<close> keeps
  the low 32 bits), \<open>Math.floor(value / 256)\<close> is \<open>div\<close> (a division by a power of
  two is exact).
\<close>

definition intToBytes :: "int \<Rightarrow> u8 list" where
  "intToBytes v0 =
     fst (fold (\<lambda>i (result, v). (result[i := word_of_int (v AND 0xff)], v div 256))
            [7, 6, 5, 4, 3, 2, 1, 0] (new_Uint8Array 8, v0))"

text \<open>The remainder operator \<open>%\<close> on integers: the sign is the dividend's.\<close>

definition js_rem :: "int \<Rightarrow> int \<Rightarrow> int" where
  "js_rem a b = sgn a * (\<bar>a\<bar> mod \<bar>b\<bar>)"

text \<open>
  \<open>Math.pow(10, d)\<close>: an integer and an exact double for \<open>0 \<le> d \<le> 22\<close>. For
  \<open>d < 0\<close> it is a fraction and for \<open>d > 22\<close> it is rounded or infinite.
\<close>

definition pow10 :: "int \<Rightarrow> int outcome" where
  "pow10 d = (if 0 \<le> d \<and> d \<le> 22 then Returns (10 ^ nat d) else Unmodelled)"

text \<open>\<open>n.toString()\<close> for an integer: decimal, no leading zeros, a sign if negative.\<close>

definition digit_char :: "nat \<Rightarrow> char" where
  "digit_char d = char_of (48 + d)"

fun digits_of :: "nat \<Rightarrow> string" where
  "digits_of n =
     (if n < 10 then [digit_char n] else digits_of (n div 10) @ [digit_char (n mod 10)])"

declare digits_of.simps [simp del]

definition toString :: "int \<Rightarrow> string" where
  "toString n = (if n < 0 then CHR ''-'' # digits_of (nat (- n)) else digits_of (nat n))"

text \<open>\<open>s.padStart(targetLength, c)\<close> with a one-character filler.\<close>

definition padStart :: "string \<Rightarrow> int \<Rightarrow> char \<Rightarrow> string" where
  "padStart s targetLength c = replicate (nat targetLength - length s) c @ s"

subsection \<open>The class \<open>TOTP\<close>\<close>

record totp =
  secret :: string
  digits :: int
  period :: int
  algorithm :: string

text \<open>
  The second argument of the constructor: \<open>undefined\<close> (also when it is
  omitted), \<open>null\<close>, or an object, of which each property is present or
  \<open>undefined\<close>. A present \<open>digits\<close> or \<open>period\<close> is an integer.
\<close>

record options =
  opt_digits :: "int option"
  opt_period :: "int option"
  opt_algorithm :: "string option"

datatype options_arg = Undefined | Null | Object options

datatype js_error = TypeError

text \<open>\<open>x || d\<close>: \<open>undefined\<close>, \<open>0\<close> and the empty string are falsy.\<close>

definition or_number :: "int option \<Rightarrow> int \<Rightarrow> int" where
  "or_number x d = (case x of None \<Rightarrow> d | Some n \<Rightarrow> if n = 0 then d else n)"

definition or_string :: "string option \<Rightarrow> string \<Rightarrow> string" where
  "or_string x d = (case x of None \<Rightarrow> d | Some s \<Rightarrow> if s = [] then d else s)"

definition no_options :: options where
  "no_options = \<lparr>opt_digits = None, opt_period = None, opt_algorithm = None\<rparr>"

text \<open>
  The constructor. The default \<open>options = {}\<close> replaces \<open>undefined\<close> only; on
  \<open>null\<close> the read \<open>options.digits\<close> raises a TypeError. There is no other
  failure: the values are stored after \<open>|| default\<close>.
\<close>

definition TOTP_constructor :: "string \<Rightarrow> options_arg \<Rightarrow> js_error + totp" where
  "TOTP_constructor s arg =
     (case (case arg of Undefined \<Rightarrow> Some no_options | Null \<Rightarrow> None | Object opts \<Rightarrow> Some opts) of
        None \<Rightarrow> Inl TypeError
      | Some opts \<Rightarrow>
          Inr \<lparr>secret = s,
               digits = or_number (opt_digits opts) 6,
               period = or_number (opt_period opts) 30,
               algorithm = or_string (opt_algorithm opts) ''SHA-1''\<rparr>)"

text \<open>
  \<open>Math.floor(timestamp / 1000 / this.period)\<close>, the counter of \<open>generate\<close> and
  \<open>verify\<close>: for exact operands and a period other than 0 it is the floor of the
  exact quotient (lemma \<open>currentCounter_floor\<close>).
\<close>

definition currentCounter :: "totp \<Rightarrow> int \<Rightarrow> int outcome" where
  "currentCounter t timestamp =
     (if exact timestamp \<and> exact (period t) \<and> period t \<noteq> 0
      then Returns (timestamp div (1000 * period t))
      else Unmodelled)"

text \<open>
  The dynamic truncation of \<open>generateHOTP\<close>: \<open>offset\<close> and \<open>code\<close> as the code
  computes them from the HMAC \<open>h\<close>, with the reads \<open>hmac[...]\<close> as \<open>typed_get\<close>.
\<close>

definition hotp_offset :: "u8 list \<Rightarrow> u32" where
  "hotp_offset h = toInt32 (typed_get h (int (length h) - 1)) AND 0x0f"

definition hotp_code :: "u8 list \<Rightarrow> u32 \<Rightarrow> u32" where
  "hotp_code h offset =
     push_bit 24 (toInt32 (typed_get h (sint offset)) AND 0x7f) OR
     push_bit 16 (toInt32 (typed_get h (sint offset + 1)) AND 0xff) OR
     push_bit 8 (toInt32 (typed_get h (sint offset + 2)) AND 0xff) OR
     (toInt32 (typed_get h (sint offset + 3)) AND 0xff)"

text \<open>
  \<open>generateHOTP\<close>, for a counter that is a double and \<open>digits\<close> for which
  \<open>Math.pow(10, digits)\<close> is exact. \<open>code\<close> is the signed reading of the 32-bit
  pattern; \<open>%\<close>, \<open>toString\<close> and \<open>padStart\<close> then work on integers.
\<close>

definition generateHOTP :: "totp \<Rightarrow> int \<Rightarrow> string outcome" where
  "generateHOTP t counter =
     (if \<not> representable counter then Unmodelled
      else
        let key = base32Decode (secret t);
            counterBuffer = intToBytes counter;
            hmac = hmac key counterBuffer;
            offset = hotp_offset hmac;
            code = hotp_code hmac offset
        in case pow10 (digits t) of
             Unmodelled \<Rightarrow> Unmodelled
           | Returns p \<Rightarrow>
               Returns (padStart (toString (js_rem (sint code) p)) (digits t) CHR ''0''))"

definition generate :: "totp \<Rightarrow> int \<Rightarrow> string outcome" where
  "generate t timestamp =
     (case currentCounter t timestamp of
        Unmodelled \<Rightarrow> Unmodelled
      | Returns counter \<Rightarrow> generateHOTP t counter)"

text \<open>
  The loop of \<open>verify\<close>, from the loop variable \<open>i\<close> on; \<open>counter\<close> is the code's
  \<open>currentCounter\<close>. For exact \<open>counter\<close>, \<open>window\<close> and \<open>i\<close> the steps \<open>i++\<close> and
  \<open>currentCounter + i\<close> are exact; beyond, \<open>i++\<close> may leave \<open>i\<close> unchanged and the
  loop may not return.
\<close>

function verify_loop :: "totp \<Rightarrow> string \<Rightarrow> int \<Rightarrow> int \<Rightarrow> int \<Rightarrow> bool outcome" where
  "verify_loop t token counter window i =
     (if \<not> (exact counter \<and> exact window) then Unmodelled
      else if i \<le> window then
        (if \<not> exact i then Unmodelled
         else
           let testCounter = counter + i
           in case generateHOTP t testCounter of
                Unmodelled \<Rightarrow> Unmodelled
              | Returns code \<Rightarrow>
                  if code = token then Returns True
                  else verify_loop t token counter window (i + 1))
      else Returns False)"
  by pat_completeness auto
termination
  by (relation "measure (\<lambda>(t, token, counter, window, i). nat (window + 1 - i))") auto

declare verify_loop.simps [simp del]

definition verify :: "totp \<Rightarrow> string \<Rightarrow> int \<Rightarrow> int \<Rightarrow> bool outcome" where
  "verify t token window timestamp =
     (case currentCounter t timestamp of
        Unmodelled \<Rightarrow> Unmodelled
      | Returns counter \<Rightarrow> verify_loop t token counter window (- window))"

text \<open>
  \<open>getRemainingSeconds\<close>: \<open>Math.floor(timestamp / 1000) % this.period\<close> and the
  difference, for exact operands; with a period of 0 the code returns \<open>NaN\<close>.
\<close>

definition getRemainingSeconds :: "totp \<Rightarrow> int \<Rightarrow> int outcome" where
  "getRemainingSeconds t timestamp =
     (if exact timestamp \<and> exact (period t) \<and> period t \<noteq> 0
      then
        let elapsed = js_rem (timestamp div 1000) (period t)
        in Returns (period t - elapsed)
      else Unmodelled)"

section \<open>The behaviour the specification describes\<close>

text \<open>
  The definitions of this section follow the words of the specification, not the
  code. The theorems below compare them with the code.
\<close>

subsection \<open>Base32 (spec 4.3)\<close>

text \<open>
  A bit buffer \<open>buf\<close> holding \<open>n\<close> bits: each 5-bit value is appended; once the
  buffer holds at least 8 bits its top 8 bits are emitted and the rest is kept;
  what is left at the end is discarded.
\<close>

fun base32_buffer :: "nat list \<Rightarrow> nat \<Rightarrow> nat \<Rightarrow> u8 list" where
  "base32_buffer [] buf n = []"
| "base32_buffer (x # xs) buf n =
     (let buf' = buf * 32 + x; n' = n + 5
      in if n' \<ge> 8
         then word_of_nat (buf' div 2 ^ (n' - 8)) # base32_buffer xs (buf' mod 2 ^ (n' - 8)) (n' - 8)
         else base32_buffer xs buf' n')"

definition in_alphabet :: "char \<Rightarrow> bool" where
  "in_alphabet c = (c \<in> set alphabet)"

definition base32_value :: "char \<Rightarrow> nat" where
  "base32_value c = nat (indexOf alphabet c)"

definition base32_spec :: "string \<Rightarrow> u8 list" where
  "base32_spec s = base32_buffer (map base32_value s) 0 0"

subsection \<open>HOTP (spec 4.2 and 4.4)\<close>

text \<open>An integer on \<open>k\<close> bytes, most significant first.\<close>

definition be_bytes :: "nat \<Rightarrow> int \<Rightarrow> u8 list" where
  "be_bytes k v = map (\<lambda>i. word_of_int (v div 256 ^ i)) (rev [0 ..< k])"

text \<open>The four bytes \<open>setUint32\<close> writes.\<close>

definition be32_bytes :: "u32 \<Rightarrow> u8 list" where
  "be32_bytes v = [ucast (drop_bit 24 v), ucast (drop_bit 16 v), ucast (drop_bit 8 v), ucast v]"

text \<open>
  HMAC: a key longer than 64 bytes is replaced by its digest, a shorter one is
  padded with zero bytes to 64; the result is
  \<open>SHA1(outerPad || SHA1(innerPad || message))\<close>.
\<close>

definition hmac_spec :: "u8 list \<Rightarrow> u8 list \<Rightarrow> u8 list" where
  "hmac_spec key message =
     (let k = (if length key > 64 then sha1 key else key);
          k = k @ replicate (64 - length k) 0;
          innerPad = map (\<lambda>b. b XOR 0x36) k;
          outerPad = map (\<lambda>b. b XOR 0x5c) k
      in sha1 (outerPad @ sha1 (innerPad @ message)))"

text \<open>
  Dynamic truncation: the offset is the low nibble of byte 19; the four bytes from
  the offset on, read as a big-endian number, with the top bit masked off.
\<close>

definition big_endian :: "u8 list \<Rightarrow> int" where
  "big_endian bs = foldl (\<lambda>acc b. acc * 256 + uint b) 0 bs"

definition truncate_spec :: "u8 list \<Rightarrow> int" where
  "truncate_spec h =
     (let offset = unat (h ! 19 AND 0x0F)
      in big_endian (take 4 (drop offset h)) AND 0x7FFFFFFF)"

text \<open>The decimal string of \<open>n\<close> on exactly \<open>d\<close> digits, zero-padded on the left.\<close>

definition decimal_padded :: "nat \<Rightarrow> nat \<Rightarrow> string" where
  "decimal_padded d n = map (\<lambda>k. digit_char (n div 10 ^ k mod 10)) (rev [0 ..< d])"

definition hotp_spec :: "totp \<Rightarrow> int \<Rightarrow> string" where
  "hotp_spec t counter =
     (let key = base32Decode (secret t);
          h = hmac_spec key (be_bytes 8 counter);
          d = nat (digits t)
      in decimal_padded d (nat (truncate_spec h mod 10 ^ d)))"

subsection \<open>Test-vector notation\<close>

definition ascii_bytes :: "string \<Rightarrow> u8 list" where
  "ascii_bytes s = map (\<lambda>c. word_of_nat (of_char c)) s"

definition hex_digit :: "nat \<Rightarrow> char" where
  "hex_digit d = (if d < 10 then char_of (48 + d) else char_of (87 + d))"

definition toHex :: "u8 list \<Rightarrow> string" where
  "toHex bs = concat (map (\<lambda>b. [hex_digit (unat b div 16), hex_digit (unat b mod 16)]) bs)"

subsection \<open>Instances used in examples\<close>

text \<open>
  \<open>demo\<close> is \<open>new TOTP("JBSWY3DPEHPK3PXP")\<close>; \<open>rfc\<close> is \<open>new TOTP(s)\<close> for the Base32
  encoding \<open>s\<close> of the ASCII secret \<open>12345678901234567890\<close> of RFC 4226, and \<open>rfc_ascii\<close>
  is the instance made from the ASCII secret itself.
\<close>

definition demo :: totp where
  "demo = \<lparr>secret = ''JBSWY3DPEHPK3PXP'', digits = 6, period = 30, algorithm = ''SHA-1''\<rparr>"

definition rfc :: totp where
  "rfc = \<lparr>secret = ''GEZDGNBVGY3TQOJQGEZDGNBVGY3TQOJQ'', digits = 6, period = 30,
          algorithm = ''SHA-1''\<rparr>"

definition rfc_ascii :: totp where
  "rfc_ascii = \<lparr>secret = ''12345678901234567890'', digits = 6, period = 30,
          algorithm = ''SHA-1''\<rparr>"

section \<open>Properties\<close>

subsection \<open>Construction, counters and remaining seconds\<close>

lemma demo_constructed: "TOTP_constructor ''JBSWY3DPEHPK3PXP'' Undefined = Inr demo"
  by (simp add: demo_def TOTP_constructor_def no_options_def or_number_def or_string_def)

text \<open>
  The floor of the real quotient \<open>timestamp / 1000 / period\<close> is an integer
  division, and for exact operands it is the counter of the code.
\<close>

lemma floor_quotient:
  "\<lfloor>real_of_int timestamp / 1000 / real_of_int p\<rfloor> = timestamp div (1000 * p)"
proof -
  have "real_of_int timestamp / 1000 / real_of_int p
      = real_of_int timestamp / real_of_int (1000 * p)"
    by simp
  then show ?thesis by (simp only: floor_divide_of_int_eq)
qed

lemma currentCounter_floor:
  assumes "exact timestamp" and "exact (period t)" and "period t \<noteq> 0"
  shows "currentCounter t timestamp
       = Returns \<lfloor>real_of_int timestamp / 1000 / real_of_int (period t)\<rfloor>"
  unfolding floor_quotient using assms by (simp add: currentCounter_def)

lemma js_rem_nonneg: "0 \<le> a \<Longrightarrow> 0 < b \<Longrightarrow> js_rem a b = a mod b"
  by (cases "a = 0") (simp_all add: js_rem_def)

text \<open>
  C4, as the code has it: an options object whose \<open>digits\<close> or \<open>period\<close> is an
  integer \<open>\<le> 0\<close> is not rejected. The constructor returns an instance, in which a
  \<open>digits\<close> or \<open>period\<close> of 0 (or an absent one) is replaced by the default 6 or 30
  and a negative one is stored unchanged.
\<close>

theorem constructor_accepts_invalid:
  assumes "(case opt_digits opts of None \<Rightarrow> False | Some d \<Rightarrow> d \<le> 0) \<or>
           (case opt_period opts of None \<Rightarrow> False | Some p \<Rightarrow> p \<le> 0)"
  shows "TOTP_constructor s (Object opts) =
     Inr \<lparr>secret = s,
          digits = (case opt_digits opts of None \<Rightarrow> 6 | Some d \<Rightarrow> if d = 0 then 6 else d),
          period = (case opt_period opts of None \<Rightarrow> 30 | Some p \<Rightarrow> if p = 0 then 30 else p),
          algorithm = (case opt_algorithm opts of None \<Rightarrow> ''SHA-1''
                       | Some a \<Rightarrow> if a = [] then ''SHA-1'' else a)\<rparr>"
  by (simp add: TOTP_constructor_def or_number_def or_string_def)

theorem constructor_accepts_invalid_witness:
  "TOTP_constructor ''JBSWY3DPEHPK3PXP''
       (Object \<lparr>opt_digits = Some 0, opt_period = Some (- 5), opt_algorithm = None\<rparr>)
     = Inr \<lparr>secret = ''JBSWY3DPEHPK3PXP'', digits = 6, period = - 5, algorithm = ''SHA-1''\<rparr>"
  using constructor_accepts_invalid
    [of "\<lparr>opt_digits = Some 0, opt_period = Some (- 5), opt_algorithm = None\<rparr>"
        "''JBSWY3DPEHPK3PXP''"]
  by simp

text \<open>
  C4, as stated, fails: with \<open>digits = -1\<close> and \<open>period = -30\<close> the constructor
  returns an instance holding these values, not an error.
\<close>

theorem constructor_accepts_nonpositive:
  "TOTP_constructor ''JBSWY3DPEHPK3PXP''
       (Object \<lparr>opt_digits = Some (- 1), opt_period = Some (- 30), opt_algorithm = None\<rparr>)
     = Inr \<lparr>secret = ''JBSWY3DPEHPK3PXP'', digits = - 1, period = - 30, algorithm = ''SHA-1''\<rparr>"
  by (simp add: TOTP_constructor_def or_number_def or_string_def)

text \<open>
  C9: for a timestamp from 0 to \<open>2 ^ 51\<close> and a period from 1 to \<open>2 ^ 51\<close>,
  \<open>getRemainingSeconds\<close> returns \<open>period - (floor(timestamp / 1000) mod period)\<close>,
  which lies between 1 and \<open>period\<close>.
\<close>

theorem getRemainingSeconds_range:
  assumes "0 \<le> timestamp" and "timestamp \<le> 2 ^ 51" and "0 < period t" and "period t \<le> 2 ^ 51"
  shows "getRemainingSeconds t timestamp
           = Returns (period t - \<lfloor>real_of_int timestamp / 1000\<rfloor> mod period t)
       \<and> 1 \<le> period t - \<lfloor>real_of_int timestamp / 1000\<rfloor> mod period t
       \<and> period t - \<lfloor>real_of_int timestamp / 1000\<rfloor> mod period t \<le> period t"
proof -
  have f: "\<lfloor>real_of_int timestamp / 1000\<rfloor> = timestamp div 1000"
    using floor_divide_of_int_eq [of timestamp 1000, where ?'a = real] by simp
  have d: "0 \<le> timestamp div 1000"
    using assms(1) by (simp add: pos_imp_zdiv_nonneg_iff)
  have x: "exact timestamp" "exact (period t)" "period t \<noteq> 0"
    using assms by (simp_all add: exact_def)
  have e: "getRemainingSeconds t timestamp = Returns (period t - (timestamp div 1000) mod period t)"
    using x by (simp add: getRemainingSeconds_def js_rem_nonneg [OF d assms(3)])
  have "0 \<le> (timestamp div 1000) mod period t" "(timestamp div 1000) mod period t < period t"
    using assms(3) by simp_all
  with e show ?thesis unfolding f by simp
qed

theorem getRemainingSeconds_range_witness:
  "(0::int) \<le> 59000 \<and> (59000::int) \<le> 2 ^ 51 \<and> 0 < period demo \<and> period demo \<le> 2 ^ 51 \<and>
   getRemainingSeconds demo 59000 = Returns 1"
  using getRemainingSeconds_range [of 59000 demo] by (simp add: demo_def)

subsection \<open>Lengths and the dynamic truncation\<close>

lemma and15_le: "(x :: u32) AND 0x0f \<le> 15"
  by (rule word_and_le1)

lemma uint_and15: "uint ((x :: u32) AND 0x0f) \<le> 15"
  using and15_le [of x] by (simp add: word_le_def)

lemma sint_small: "uint (w :: u32) < 2 ^ 31 \<Longrightarrow> sint w = uint w"
proof -
  assume a: "uint w < 2 ^ 31"
  have "- (2 ^ 31) \<le> uint w" by (rule order_trans [of _ 0]) simp_all
  with a have "signed_take_bit 31 (uint w) = uint w"
    by (rule signed_take_bit_int_eq_self [rotated])
  then show ?thesis by (simp add: sint_uint)
qed

lemma length_setUint32 [simp]: "length (setUint32 view off v) = length view"
  by (simp add: setUint32_def)

lemma length_sha1 [simp]: "length (sha1 data) = 20"
proof -
  obtain h0 h1 h2 h3 h4 where
    "fold (\<lambda>k. sha1_chunk (sha1_pad data) (k * 64)) [0 ..< length (sha1_pad data) div 64] sha1_init
       = (h0, h1, h2, h3, h4)"
    by (metis prod_cases5)
  then show ?thesis by (simp add: sha1_def Let_def new_Uint8Array_def)
qed

lemma length_hmac [simp]: "length (hmac key data) = 20"
  by (simp add: hmac_def Let_def)

lemma hotp_offset_range:
  "0 \<le> sint (hotp_offset h) \<and> sint (hotp_offset h) \<le> 15"
proof -
  have u: "uint (hotp_offset h) \<le> 15" unfolding hotp_offset_def by (rule uint_and15)
  then have "sint (hotp_offset h) = uint (hotp_offset h)" by (intro sint_small) simp
  with u show ?thesis by simp
qed

text \<open>
  C10: the HMAC has exactly 20 bytes, the offset \<open>hmac[19] & 0x0F\<close> lies between 0
  and 15, and none of the reads of the dynamic truncation (\<open>hmac[hmac.length - 1]\<close>
  and \<open>hmac[offset]\<close> to \<open>hmac[offset + 3]\<close>) is out of range.
\<close>

theorem truncation_reads_in_bounds:
  "length (hmac key data) = 20 \<and>
   typed_get (hmac key data) (int (length (hmac key data)) - 1) \<noteq> None \<and>
   0 \<le> sint (hotp_offset (hmac key data)) \<and> sint (hotp_offset (hmac key data)) \<le> 15 \<and>
   typed_get (hmac key data) (sint (hotp_offset (hmac key data))) \<noteq> None \<and>
   typed_get (hmac key data) (sint (hotp_offset (hmac key data)) + 1) \<noteq> None \<and>
   typed_get (hmac key data) (sint (hotp_offset (hmac key data)) + 2) \<noteq> None \<and>
   typed_get (hmac key data) (sint (hotp_offset (hmac key data)) + 3) \<noteq> None"
  using hotp_offset_range [of "hmac key data"] by (simp add: typed_get_def)


subsection \<open>SHA-1 padding\<close>

lemma padded_length_ge: "n + 9 \<le> padded_length n"
  unfolding padded_length_def by presburger

lemma padded_length_dvd: "64 dvd padded_length n"
  by (simp add: padded_length_def)

lemma setUint32_append:
  "setUint32 (xs @ [a, b, c, d]) (length xs) v = xs @ be32_bytes v"
  by (simp add: setUint32_def be32_bytes_def list_update_append)

lemma typed_set_zero:
  "length data \<le> m \<Longrightarrow> typed_set (new_Uint8Array m) data 0 = data @ replicate (m - length data) 0"
  by (simp add: typed_set_def new_Uint8Array_def)

text \<open>
  The padded message: the data, \<open>0x80\<close>, zero bytes up to 56 modulo 64, four zero
  bytes, and the low 32 bits of the bit length.
\<close>

lemma sha1_pad_eq:
  "sha1_pad data =
     data @ 0x80 # replicate (padded_length (length data) - length data - 9) 0 @ [0, 0, 0, 0] @
     be32_bytes (word_of_nat (length data * 8))"
proof -
  define n where "n = length data"
  define z where "z = padded_length n - n - 9"
  have p: "padded_length n = n + 9 + z"
    using padded_length_ge [of n] by (simp add: z_def)
  have e: "replicate 8 (0::u8) = [0, 0, 0, 0] @ [0, 0, 0, 0]"
    by (simp add: eval_nat_numeral)
  have "replicate (9 + z) (0::u8) = replicate (Suc z + 8) 0"
    by simp
  also have "\<dots> = replicate (Suc z) 0 @ replicate 8 0"
    by (simp only: replicate_add)
  finally have r: "replicate (9 + z) (0::u8) = 0 # replicate z 0 @ [0, 0, 0, 0] @ [0, 0, 0, 0]"
    by (simp only: e replicate_Suc append_Cons)
  have le: "length data \<le> padded_length n"
    unfolding p by (simp add: n_def)
  have d: "padded_length n - length data = 9 + z"
    unfolding p by (simp add: n_def)
  have t: "typed_set (new_Uint8Array (padded_length n)) data 0
             = data @ 0 # replicate z 0 @ [0, 0, 0, 0] @ [0, 0, 0, 0]"
    unfolding typed_set_zero [OF le] d r ..
  have u: "(data @ 0 # replicate z 0 @ [0, 0, 0, 0] @ [0, 0, 0, 0])[n := 0x80]
             = (data @ 0x80 # replicate z 0 @ [0, 0, 0, 0]) @ [0, 0, 0, 0]"
    by (simp add: list_update_append n_def)
  have l: "length ((data @ 0x80 # replicate z 0 @ [0, 0, 0, 0]) @ [0, 0, 0, 0]) - 4
             = length (data @ 0x80 # replicate z 0 @ [0, 0, 0, 0])"
    by simp
  have "sha1_pad data =
     setUint32 ((data @ 0x80 # replicate z 0 @ [0, 0, 0, 0]) @ [0, 0, 0, 0])
       (length (data @ 0x80 # replicate z 0 @ [0, 0, 0, 0])) (word_of_nat (n * 8))"
    unfolding sha1_pad_def Let_def n_def [symmetric] t u l ..
  also have "\<dots> = (data @ 0x80 # replicate z 0 @ [0, 0, 0, 0]) @ be32_bytes (word_of_nat (n * 8))"
    by (rule setUint32_append)
  finally show ?thesis by (simp add: n_def z_def)
qed

lemma length_sha1_pad: "length (sha1_pad data) = padded_length (length data)"
  using padded_length_ge [of "length data"] by (simp add: sha1_pad_eq be32_bytes_def)

lemma sha1_pad_last8:
  "drop (length (sha1_pad data) - 8) (sha1_pad data)
     = [0, 0, 0, 0] @ be32_bytes (word_of_nat (length data * 8))"
proof -
  have "length (sha1_pad data) - 8 = length (data @ 0x80 # replicate (padded_length (length data) - length data - 9) 0)"
    using padded_length_ge [of "length data"] by (simp add: length_sha1_pad)
  then show ?thesis
    by (simp only: sha1_pad_eq [of data] append_assoc [symmetric] append_Cons [symmetric] drop_append)
      (simp add: be32_bytes_def)
qed

lemma byte_of_nat:
  "k \<le> 24 \<Longrightarrow> (ucast (drop_bit k (word_of_nat m :: u32)) :: u8) = word_of_int (int m div 2 ^ k)"
  by (rule bit_word_eqI) (auto simp add: bit_simps simp flip: drop_bit_eq_div)

lemma upt8: "[0 ..< 8] = [0, 1, 2, 3, 4, 5, 6, 7]"
  by (simp add: upt_rec)

lemma be_bytes_8:
  "be_bytes 8 v = map (\<lambda>i. word_of_int (v div 256 ^ i)) [7, 6, 5, 4, 3, 2, 1, 0]"
  by (simp add: be_bytes_def upt8)

lemma be32_bytes_small:
  assumes "m < 2 ^ 32"
  shows "[0, 0, 0, 0] @ be32_bytes (word_of_nat m) = be_bytes 8 (int m)"
proof -
  have z: "int m div 256 ^ 4 = 0" "int m div 256 ^ 5 = 0" "int m div 256 ^ 6 = 0" "int m div 256 ^ 7 = 0"
    using assms by simp_all
  have b: "(ucast (drop_bit 24 (word_of_nat m :: u32)) :: u8) = word_of_int (int m div 256 ^ 3)"
      "(ucast (drop_bit 16 (word_of_nat m :: u32)) :: u8) = word_of_int (int m div 256 ^ 2)"
      "(ucast (drop_bit 8 (word_of_nat m :: u32)) :: u8) = word_of_int (int m div 256 ^ 1)"
      "(ucast (word_of_nat m :: u32) :: u8) = word_of_int (int m div 256 ^ 0)"
    using byte_of_nat [of 24 m] byte_of_nat [of 16 m] byte_of_nat [of 8 m] byte_of_nat [of 0 m]
    by simp_all
  show ?thesis
    unfolding be_bytes_8 be32_bytes_def list.map z b by simp
qed

text \<open>
  Below \<open>2 ^ 29\<close> bytes the last eight bytes are the bit length, big-endian.
\<close>

lemma sha1_pad_length_field:
  assumes "length data < 2 ^ 29"
  shows "drop (length (sha1_pad data) - 8) (sha1_pad data) = be_bytes 8 (int (8 * length data))"
proof -
  have "length data * 8 < 2 ^ 32" using assms by simp
  from be32_bytes_small [OF this] show ?thesis
    by (simp add: sha1_pad_last8 mult.commute)
qed

text \<open>
  C5 at an input of \<open>2 ^ 29\<close> zero bytes: the bit length is \<open>2 ^ 32\<close>, whose 64-bit
  big-endian form is \<open>00 00 00 01 00 00 00 00\<close>, but the padded message ends in eight
  zero bytes, since \<open>setUint32\<close> writes the length modulo \<open>2 ^ 32\<close> into the last
  four bytes and the four before them are never written.
\<close>

theorem sha1_pad_length_field_wraps:
  "drop (length (sha1_pad (replicate (2 ^ 29) 0)) - 8) (sha1_pad (replicate (2 ^ 29) 0))
     = [0, 0, 0, 0, 0, 0, 0, 0]
   \<and> be_bytes 8 (8 * int (length (replicate (2 ^ 29) (0 :: u8)))) = [0, 0, 0, 1, 0, 0, 0, 0]"
proof -
  have w: "(word_of_nat (2 ^ 29 * 8) :: u32) = 0"
    by simp
  have "drop (length (sha1_pad (replicate (2 ^ 29) 0)) - 8) (sha1_pad (replicate (2 ^ 29) 0))
     = [0, 0, 0, 0, 0, 0, 0, 0]"
    unfolding sha1_pad_last8 length_replicate w by (simp add: be32_bytes_def)
  moreover have "be_bytes 8 (8 * int (length (replicate (2 ^ 29) (0 :: u8)))) = [0, 0, 0, 1, 0, 0, 0, 0]"
    unfolding be_bytes_8 length_replicate by simp
  ultimately show ?thesis by (rule conjI)
qed


subsection \<open>Base32 decoding\<close>

lemma indexOf_from_absent: "0 \<le> i \<Longrightarrow> indexOf_from i xs c = - 1 \<longleftrightarrow> c \<notin> set xs"
  by (induction xs arbitrary: i) auto

lemma indexOf_from_range:
  "c \<in> set xs \<Longrightarrow> i \<le> indexOf_from i xs c \<and> indexOf_from i xs c < i + int (length xs)"
proof (induction xs arbitrary: i)
  case Nil
  then show ?case by simp
next
  case (Cons a xs)
  show ?case
  proof (cases "a = c")
    case True
    then show ?thesis by simp
  next
    case False
    with Cons.prems have "c \<in> set xs" by simp
    from Cons.IH [OF this, of "i + 1"] False show ?thesis by simp
  qed
qed

lemma length_alphabet: "length alphabet = 32"
  by (simp add: alphabet_def)

lemma indexOf_alphabet_absent: "indexOf alphabet c = - 1 \<longleftrightarrow> \<not> in_alphabet c"
  by (simp add: indexOf_def in_alphabet_def indexOf_from_absent)

lemma indexOf_alphabet_value:
  assumes "in_alphabet c"
  shows "indexOf alphabet c = int (base32_value c)" and "base32_value c < 32"
proof -
  from assms have "c \<in> set alphabet" by (simp add: in_alphabet_def)
  from indexOf_from_range [OF this, of 0]
  have r: "0 \<le> indexOf alphabet c" "indexOf alphabet c < 32"
    by (simp_all add: indexOf_def length_alphabet)
  then show "indexOf alphabet c = int (base32_value c)" "base32_value c < 32"
    by (simp_all add: base32_value_def)
qed

lemma push5_disjoint: "x < 32 \<Longrightarrow> push_bit 5 (a :: nat) AND x = 0"
proof -
  assume "x < 32"
  then have "take_bit 5 x = x" by (simp add: take_bit_nat_eq_self)
  then have "push_bit 5 a AND x = push_bit 5 a AND take_bit 5 x" by simp
  also have "\<dots> = 0" by (rule bit_eqI) (auto simp add: bit_simps)
  finally show ?thesis .
qed

lemma buffer_append:
  fixes v :: u32
  assumes "x < 32" and "bits < 8"
  shows "unat (push_bit 5 v OR word_of_nat x) mod 2 ^ (bits + 5) = (unat v mod 2 ^ bits) * 32 + x"
proof -
  have x32: "x < 2 ^ 32" using assms(1) by simp
  have ux: "unat (word_of_nat x :: u32) = x"
    using x32 by (simp add: unat_of_nat take_bit_nat_eq_self flip: take_bit_eq_mod)
  have tx: "take_bit (bits + 5) x = x"
  proof (rule take_bit_nat_eq_self)
    have "(2::nat) ^ 5 \<le> 2 ^ (bits + 5)" by (rule power_increasing) simp_all
    with assms(1) show "x < 2 ^ (bits + 5)" by simp
  qed
  have m: "min (bits + 5) 32 = bits + 5" "min bits 27 = bits" using assms(2) by simp_all
  have "unat (push_bit 5 v OR word_of_nat x) mod 2 ^ (bits + 5)
      = take_bit (bits + 5) (take_bit 32 (push_bit 5 (unat v)) OR x)"
    by (simp add: unsigned_or_eq unsigned_push_bit_eq ux take_bit_eq_mod)
  also have "\<dots> = push_bit 5 (take_bit bits (unat v)) OR x"
    by (simp add: take_bit_or take_bit_take_bit m take_bit_push_bit tx)
  also have "\<dots> = push_bit 5 (take_bit bits (unat v)) + x"
    by (rule disjunctive_add_eq_or [symmetric]) (rule push5_disjoint [OF assms(1)])
  finally show ?thesis by (simp add: push_bit_eq_mult take_bit_eq_mod)
qed

lemma and_255: "(w :: u32) AND 255 = take_bit 8 w"
proof -
  have "(255 :: u32) = mask 8" by (simp add: mask_eq_exp_minus_1)
  then show ?thesis by (simp only: take_bit_eq_mask)
qed

lemma emitted_byte:
  fixes v :: u32
  assumes "k \<le> 4"
  shows "(ucast (drop_bit k v AND 255) :: u8) = word_of_nat (unat v mod 2 ^ (k + 8) div 2 ^ k)"
  unfolding and_255 using assms
  by (intro bit_word_eqI) (auto simp add: bit_simps simp flip: take_bit_eq_mod drop_bit_eq_div)

lemma buffer_rest: "(n :: nat) mod 2 ^ (k + 8) mod 2 ^ k = n mod 2 ^ k"
  by (rule mod_mod_cancel) (simp add: le_imp_power_dvd)

lemma base32Decode_loop_spec:
  "bits < 8 \<Longrightarrow>
   base32Decode_loop cs v bits decoded =
     decoded @ base32_buffer (map base32_value (filter in_alphabet cs)) (unat v mod 2 ^ bits) bits"
proof (induction cs arbitrary: v bits decoded)
  case Nil
  then show ?case by simp
next
  case (Cons c cs)
  show ?case
  proof (cases "in_alphabet c")
    case False
    then have "indexOf alphabet c = - 1" by (simp add: indexOf_alphabet_absent)
    with False Cons show ?thesis by simp
  next
    case True
    define x where "x = base32_value c"
    define v' :: u32 where "v' = push_bit 5 v OR word_of_nat x"
    from True have i: "indexOf alphabet c = int x" and x: "x < 32"
      by (simp_all add: x_def indexOf_alphabet_value)
    have ne: "indexOf alphabet c \<noteq> - 1" using i by simp
    have a: "unat v' mod 2 ^ (bits + 5) = (unat v mod 2 ^ bits) * 32 + x"
      unfolding v'_def by (rule buffer_append [OF x Cons.prems])
    show ?thesis
    proof (cases "bits + 5 \<ge> 8")
      case ge: True
      define k where "k = bits + 5 - 8"
      have k: "k \<le> 4" "bits + 5 = k + 8" "k < 8" using ge Cons.prems by (simp_all add: k_def)
      have "base32Decode_loop (c # cs) v bits decoded
          = base32Decode_loop cs v' k (decoded @ [ucast (drop_bit k v' AND 255)])"
        using ne ge by (simp add: i v'_def k_def Let_def)
      also have "\<dots> = (decoded @ [ucast (drop_bit k v' AND 255)]) @
          base32_buffer (map base32_value (filter in_alphabet cs)) (unat v' mod 2 ^ k) k"
        by (rule Cons.IH [OF k(3)])
      also have "\<dots> = decoded @
          base32_buffer (map base32_value (filter in_alphabet (c # cs))) (unat v mod 2 ^ bits) bits"
        using True ge
        by (simp add: Let_def a [symmetric] x_def [symmetric] k(2) emitted_byte [OF k(1)] buffer_rest)
      finally show ?thesis .
    next
      case lt: False
      then have b: "bits + 5 < 8" by simp
      have "base32Decode_loop (c # cs) v bits decoded = base32Decode_loop cs v' (bits + 5) decoded"
        using ne lt by (simp add: i v'_def Let_def)
      also have "\<dots> = decoded @
          base32_buffer (map base32_value (filter in_alphabet cs)) (unat v' mod 2 ^ (bits + 5)) (bits + 5)"
        by (rule Cons.IH [OF b])
      also have "\<dots> = decoded @
          base32_buffer (map base32_value (filter in_alphabet (c # cs))) (unat v mod 2 ^ bits) bits"
        using True lt by (simp add: Let_def a x_def [symmetric])
      finally show ?thesis .
    qed
  qed
qed

lemma alphabet_cases:
  "in_alphabet c \<longleftrightarrow> c \<in> set ''ABCDEFGHIJKLMNOPQRSTUVWXYZ234567''"
  by (simp add: in_alphabet_def alphabet_def)

lemma alphabet_ascii:
  assumes "in_alphabet c"
  shows "(of_char c :: nat) < 97" and "c \<noteq> CHR ''=''"
  using assms unfolding alphabet_cases by auto

lemma special_casing_ascii: "(of_char c :: nat) < 128 \<Longrightarrow> special_casing (c # cs) = None"
  unfolding special_casing_def find_None_iff special_casing_table_def
  by (auto simp add: take_Cons')

lemma alphabet_char_upper:
  assumes "in_alphabet c"
  shows "special_casing (c # cs) = None" and "upper_ascii c = c" and "c \<noteq> CHR ''=''"
  using alphabet_ascii [OF assms] by (simp_all add: special_casing_ascii upper_ascii_def)

lemma toUpperCase_alphabet: "\<forall>c\<in>set w. in_alphabet c \<Longrightarrow> toUpperCase w = w"
  by (induction w) (simp_all add: alphabet_char_upper)

lemma strip_padding_alphabet: "\<forall>c\<in>set w. in_alphabet c \<Longrightarrow> strip_padding w = w"
proof -
  assume a: "\<forall>c\<in>set w. in_alphabet c"
  have "dropWhile (\<lambda>c. c = CHR ''='') (rev w) = rev w"
  proof (cases "rev w")
    case Nil
    then show ?thesis by simp
  next
    case (Cons c cs)
    then have "c \<in> set w" by (metis list.set_intros(1) set_rev)
    with a have "c \<noteq> CHR ''=''" by (simp add: alphabet_char_upper)
    with Cons show ?thesis by simp
  qed
  then show ?thesis by (simp add: strip_padding_def)
qed

lemma base32Decode_spec:
  "base32Decode s = base32_spec (filter in_alphabet (toUpperCase (strip_padding s)))"
  by (simp add: base32Decode_def base32_spec_def base32Decode_loop_spec)

text \<open>
  C7: \<open>base32Decode\<close> is total; trailing \<open>=\<close> are stripped, the rest is upper-cased,
  characters outside the alphabet are skipped, and the 32-bit accumulator of the
  loop yields the bytes of the bit buffer of the specification, whose leftover bits
  are dropped. So decoding a string is decoding the subsequence of its valid
  characters.
\<close>

theorem base32Decode_lenient:
  "base32Decode s = base32_spec (filter in_alphabet (toUpperCase (strip_padding s))) \<and>
   base32Decode (filter in_alphabet (toUpperCase (strip_padding s))) = base32Decode s"
proof -
  define w where "w = filter in_alphabet (toUpperCase (strip_padding s))"
  have a: "\<forall>c\<in>set w. in_alphabet c" by (simp add: w_def)
  have "filter in_alphabet (toUpperCase (strip_padding w)) = w"
    using a by (simp add: strip_padding_alphabet toUpperCase_alphabet filter_id_conv)
  then have "base32Decode w = base32_spec w" by (simp add: base32Decode_spec)
  then show ?thesis by (simp add: base32Decode_spec w_def)
qed


subsection \<open>The counter bytes\<close>

lemma new_Uint8Array_8: "new_Uint8Array 8 = [0, 0, 0, 0, 0, 0, 0, 0]"
  by (simp add: new_Uint8Array_def eval_nat_numeral)

lemma low_byte: "(word_of_int (v AND 0xff) :: u8) = word_of_int v"
proof -
  have "(0xff :: int) = mask 8" by (simp add: mask_eq_exp_minus_1)
  then have "v AND 0xff = take_bit 8 v" by (simp only: take_bit_eq_mask)
  then show ?thesis by (simp add: word_of_int_eq_iff)
qed

lemma intToBytes_eq: "intToBytes v = be_bytes 8 v"
  unfolding intToBytes_def new_Uint8Array_8 be_bytes_8
  by (simp add: low_byte eval_nat_numeral zdiv_zmult2_eq [symmetric])

subsection \<open>HMAC against its description\<close>

lemma typed_set_prefix:
  "typed_set (new_Uint8Array (length xs + n)) xs 0 = xs @ replicate n 0"
  by (simp add: typed_set_def new_Uint8Array_def)

lemma typed_set_suffix:
  "length zs = length ys \<Longrightarrow> typed_set (xs @ ys) zs (length xs) = xs @ zs"
  by (simp add: typed_set_def)

lemma xor_byte: "(ucast ((ucast (b :: u8) :: u32) XOR c) :: u8) = b XOR ucast c"
  by (rule bit_word_eqI) (auto simp add: bit_simps)

lemma key_pad:
  assumes "length k = 64"
  shows "map (\<lambda>i. ucast (toInt32 (typed_get k (int i)) XOR c)) [0 ..< 64] = map (\<lambda>b. b XOR ucast c) k"
proof -
  have "map (\<lambda>i. ucast (toInt32 (typed_get k (int i)) XOR c)) [0 ..< length k]
      = map (\<lambda>i. (k ! i) XOR ucast c) [0 ..< length k]"
    by (rule map_cong) (simp_all add: typed_get_def toInt32_def xor_byte)
  also have "\<dots> = map (\<lambda>b. b XOR ucast c) (map (\<lambda>i. k ! i) [0 ..< length k])"
    by (simp only: map_map comp_def)
  also have "\<dots> = map (\<lambda>b. b XOR ucast c) k"
    by (simp only: map_nth)
  finally show ?thesis by (simp add: assms)
qed

lemma hmac_eq: "hmac key data = hmac_spec key data"
proof -
  define k0 where "k0 = (if length key > 64 then sha1 key else key)"
  define k where "k = k0 @ replicate (64 - length k0) 0"
  have l0: "length k0 \<le> 64" by (simp add: k0_def)
  then have lk: "length k = 64" by (simp add: k_def)
  have p: "(if length k0 < 64 then typed_set (new_Uint8Array 64) k0 0 else k0) = k"
  proof (cases "length k0 < 64")
    case True
    then have "64 = length k0 + (64 - length k0)" by simp
    then have "typed_set (new_Uint8Array 64) k0 0 = k0 @ replicate (64 - length k0) 0"
      by (metis typed_set_prefix)
    with True show ?thesis by (simp add: k_def)
  next
    case False
    with l0 show ?thesis by (simp add: k_def)
  qed
  have c: "(ucast (0x5c :: u32) :: u8) = 0x5c" "(ucast (0x36 :: u32) :: u8) = 0x36" by simp_all
  have s: "typed_set (typed_set (new_Uint8Array (64 + length ys)) xs 0) ys 64 = xs @ ys"
    if "length xs = 64" for xs ys :: "u8 list"
  proof -
    have "typed_set (new_Uint8Array (length xs + length ys)) xs 0 = xs @ replicate (length ys) 0"
      by (rule typed_set_prefix)
    moreover have "typed_set (xs @ replicate (length ys) 0) ys (length xs) = xs @ ys"
      by (rule typed_set_suffix) simp
    ultimately show ?thesis by (simp add: that)
  qed
  have s20: "typed_set (typed_set (new_Uint8Array 84) xs 0) (sha1 ys) 64 = xs @ sha1 ys"
    if "length xs = 64" for xs ys :: "u8 list"
    using s [OF that, of "sha1 ys"] by simp
  have "hmac key data = sha1 (map (\<lambda>b. b XOR 0x5c) k @ sha1 (map (\<lambda>b. b XOR 0x36) k @ data))"
    unfolding hmac_def Let_def k0_def [symmetric] p
    unfolding key_pad [OF lk] c
    by (simp add: s s20 lk)
  then show ?thesis
    unfolding hmac_spec_def Let_def k0_def [symmetric] k_def [symmetric] .
qed


subsection \<open>Dynamic truncation\<close>

lemma push_bit_disjoint:
  fixes x y :: int
  assumes "0 \<le> y" and "y < 2 ^ n"
  shows "push_bit n x AND y = 0"
proof -
  from assms have "take_bit n y = y" by (simp add: take_bit_int_eq_self)
  then have "push_bit n x AND y = push_bit n x AND take_bit n y" by simp
  also have "\<dots> = 0" by (rule bit_eqI) (auto simp add: bit_simps)
  finally show ?thesis .
qed

lemma uint_byte_bounds: "0 \<le> uint (b :: u8)" "uint (b :: u8) < 256"
  using uint_lt2p [of b] by simp_all

lemma big_endian_4:
  "big_endian [b0, b1, b2, b3] =
     push_bit 24 (uint b0) OR push_bit 16 (uint b1) OR push_bit 8 (uint b2) OR uint b3"
proof -
  have 1: "push_bit 8 (uint b2) OR uint b3 = push_bit 8 (uint b2) + uint b3"
    using uint_byte_bounds [of b3]
    by (intro disjunctive_add_eq_or [symmetric] push_bit_disjoint) simp_all
  have r2: "0 \<le> push_bit 8 (uint b2) + uint b3" "push_bit 8 (uint b2) + uint b3 < 2 ^ 16"
    using uint_byte_bounds [of b2] uint_byte_bounds [of b3] by (simp_all add: push_bit_eq_mult)
  have 2: "push_bit 16 (uint b1) OR (push_bit 8 (uint b2) + uint b3)
         = push_bit 16 (uint b1) + (push_bit 8 (uint b2) + uint b3)"
    by (intro disjunctive_add_eq_or [symmetric] push_bit_disjoint r2)
  have r3: "0 \<le> push_bit 16 (uint b1) + (push_bit 8 (uint b2) + uint b3)"
      "push_bit 16 (uint b1) + (push_bit 8 (uint b2) + uint b3) < 2 ^ 24"
    using uint_byte_bounds [of b1] r2 by (simp_all add: push_bit_eq_mult)
  have 3: "push_bit 24 (uint b0) OR (push_bit 16 (uint b1) + (push_bit 8 (uint b2) + uint b3))
         = push_bit 24 (uint b0) + (push_bit 16 (uint b1) + (push_bit 8 (uint b2) + uint b3))"
    by (intro disjunctive_add_eq_or [symmetric] push_bit_disjoint r3)
  have "big_endian [b0, b1, b2, b3]
      = push_bit 24 (uint b0) + (push_bit 16 (uint b1) + (push_bit 8 (uint b2) + uint b3))"
    by (simp add: big_endian_def push_bit_eq_mult)
  then show ?thesis by (simp only: 1 2 3 or.assoc)
qed

lemma mask_31: "(0x7FFFFFFF :: int) = mask 31"
  by (simp add: mask_eq_exp_minus_1)

lemma uint_shifted_byte:
  fixes b :: u8
  assumes "k \<le> 24"
  shows "uint (push_bit k ((ucast b :: u32) AND mask m)) = push_bit k (take_bit m (uint b))"
  using assms by (intro bit_eqI) (auto simp add: bit_simps dest: bit_imp_le_length)

lemma take_bit_byte: "8 \<le> m \<Longrightarrow> take_bit m (uint (b :: u8)) = uint b"
proof -
  assume "8 \<le> m"
  then have "(2::int) ^ 8 \<le> 2 ^ m" by (intro power_increasing) simp_all
  with uint_byte_bounds [of b] show ?thesis by (simp add: take_bit_int_eq_self)
qed

lemma code_word:
  fixes b0 b1 b2 b3 :: u8
  shows "uint (push_bit 24 ((ucast b0 :: u32) AND 0x7f) OR push_bit 16 (ucast b1 AND 0xff) OR
               push_bit 8 (ucast b2 AND 0xff) OR (ucast b3 AND 0xff))
       = (push_bit 24 (uint b0) OR push_bit 16 (uint b1) OR push_bit 8 (uint b2) OR uint b3)
           AND 0x7FFFFFFF"
proof -
  have m: "(0x7f :: u32) = mask 7" "(0xff :: u32) = mask 8"
    by (simp_all add: mask_eq_exp_minus_1)
  have l: "uint (push_bit 24 ((ucast b0 :: u32) AND 0x7f) OR push_bit 16 (ucast b1 AND 0xff) OR
               push_bit 8 (ucast b2 AND 0xff) OR (ucast b3 AND 0xff))
       = push_bit 24 (take_bit 7 (uint b0)) OR push_bit 16 (uint b1) OR push_bit 8 (uint b2) OR uint b3"
    unfolding m uint_or
    using uint_shifted_byte [of 24 b0 7] uint_shifted_byte [of 16 b1 8]
      uint_shifted_byte [of 8 b2 8] uint_shifted_byte [of 0 b3 8]
    by (simp add: take_bit_byte)
  have r: "(push_bit 24 (uint b0) OR push_bit 16 (uint b1) OR push_bit 8 (uint b2) OR uint b3)
           AND 0x7FFFFFFF
       = push_bit 24 (take_bit 7 (uint b0)) OR push_bit 16 (uint b1) OR push_bit 8 (uint b2) OR uint b3"
    unfolding mask_31 take_bit_eq_mask [symmetric] take_bit_or take_bit_push_bit
    by (simp add: take_bit_byte)
  show ?thesis by (simp only: l r)
qed

lemma take4_drop:
  "k + 4 \<le> length h \<Longrightarrow> take 4 (drop k h) = [h ! k, h ! (k + 1), h ! (k + 2), h ! (k + 3)]"
proof -
  assume a: "k + 4 \<le> length h"
  have "drop k h = h ! k # drop (Suc k) h"
    using a by (simp add: Cons_nth_drop_Suc)
  also have "drop (Suc k) h = h ! Suc k # drop (Suc (Suc k)) h"
    using a by (simp add: Cons_nth_drop_Suc)
  also have "drop (Suc (Suc k)) h = h ! Suc (Suc k) # drop (Suc (Suc (Suc k))) h"
    using a by (simp add: Cons_nth_drop_Suc)
  also have "drop (Suc (Suc (Suc k))) h = h ! Suc (Suc (Suc k)) # drop (Suc (Suc (Suc (Suc k)))) h"
    using a by (simp add: Cons_nth_drop_Suc)
  finally show ?thesis by (simp add: eval_nat_numeral)
qed

lemma hotp_offset_value:
  assumes "length h = 20"
  shows "sint (hotp_offset h) = int (unat (h ! 19 AND 0x0F))"
proof -
  have g: "typed_get h (int (length h) - 1) = Some (h ! 19)"
    by (simp add: typed_get_def assms)
  have "uint (hotp_offset h) = uint (h ! 19) AND 15"
    unfolding hotp_offset_def g by (simp add: toInt32_def uint_and uint_up_ucast is_up)
  moreover have "int (unat (h ! 19 AND 0x0F)) = uint (h ! 19) AND 15"
    by (simp add: uint_and)
  moreover have "sint (hotp_offset h) = uint (hotp_offset h)"
    using hotp_offset_range [of h] uint_and15 unfolding hotp_offset_def
    by (intro sint_small) (simp add: order_le_less_trans [OF uint_and15])
  ultimately show ?thesis by simp
qed

lemma truncation_eq:
  assumes "length h = 20"
  shows "sint (hotp_code h (hotp_offset h)) = truncate_spec h"
    and "0 \<le> truncate_spec h"
proof -
  define off where "off = unat (h ! 19 AND 0x0F)"
  have "unat (h ! 19 AND 0x0F) \<le> unat (0x0F :: u8)"
    by (rule word_and_le1 [unfolded word_le_nat_alt])
  then have o: "off \<le> 15" by (simp add: off_def)
  have s: "sint (hotp_offset h) = int off"
    by (simp add: hotp_offset_value [OF assms] off_def)
  have g: "typed_get h (int off) = Some (h ! off)"
      "typed_get h (int off + 1) = Some (h ! (off + 1))"
      "typed_get h (int off + 2) = Some (h ! (off + 2))"
      "typed_get h (int off + 3) = Some (h ! (off + 3))"
    using o by (simp_all add: typed_get_def assms nat_add_distrib)
  have t: "truncate_spec h =
      (push_bit 24 (uint (h ! off)) OR push_bit 16 (uint (h ! (off + 1))) OR
       push_bit 8 (uint (h ! (off + 2))) OR uint (h ! (off + 3))) AND 0x7FFFFFFF"
    using o by (simp add: truncate_spec_def Let_def off_def [symmetric] take4_drop assms big_endian_4)
  have u: "uint (hotp_code h (hotp_offset h)) = truncate_spec h"
    unfolding hotp_code_def s g toInt32_def option.case t by (rule code_word)
  have b1: "truncate_spec h < 2 ^ 31"
    unfolding t mask_31 take_bit_eq_mask [symmetric] by (rule take_bit_int_less_exp)
  have b2: "0 \<le> truncate_spec h"
    unfolding t mask_31 take_bit_eq_mask [symmetric] by (simp only: take_bit_nonnegative)
  note b = b1 b2
  show "0 \<le> truncate_spec h" by (rule b2)
  have "sint (hotp_code h (hotp_offset h)) = uint (hotp_code h (hotp_offset h))"
    using b1 by (intro sint_small) (simp add: u)
  then show "sint (hotp_code h (hotp_offset h)) = truncate_spec h" by (simp add: u)
qed

subsection \<open>Decimal formatting\<close>

text \<open>\<open>toString\<close> then \<open>padStart\<close> is the positional rendering on \<open>d\<close> digits.\<close>

lemma digits_of_small: "n < 10 \<Longrightarrow> digits_of n = [digit_char n]"
  by (simp add: digits_of.simps [of n])

lemma digits_of_large: "\<not> n < 10 \<Longrightarrow> digits_of n = digits_of (n div 10) @ [digit_char (n mod 10)]"
  by (simp add: digits_of.simps [of n])

lemma decimal_padded_Suc:
  "decimal_padded (Suc d) n = decimal_padded d (n div 10) @ [digit_char (n mod 10)]"
proof -
  have "[0 ..< Suc d] = 0 # map Suc [0 ..< d]"
    by (simp add: upt_conv_Cons map_Suc_upt del: upt_Suc)
  then have "rev [0 ..< Suc d] = map Suc (rev [0 ..< d]) @ [0]"
    by (simp add: rev_map del: upt_Suc)
  then show ?thesis
    unfolding decimal_padded_def by (simp add: comp_def div_mult2_eq del: upt_Suc)
qed

lemma decimal_padded_zero: "decimal_padded d 0 = replicate d (digit_char 0)"
  by (induction d) (simp_all add: decimal_padded_def replicate_append_same)

lemma padStart_decimal:
  "n < 10 ^ Suc d \<Longrightarrow>
   replicate (Suc d - length (digits_of n)) (digit_char 0) @ digits_of n = decimal_padded (Suc d) n"
proof (induction d arbitrary: n)
  case 0
  then show ?case by (simp add: digits_of_small decimal_padded_Suc decimal_padded_def)
next
  case (Suc d)
  show ?case
  proof (cases "n < 10")
    case True
    then show ?thesis
      by (simp add: digits_of_small decimal_padded_Suc [of "Suc d"] decimal_padded_zero
            replicate_append_same)
  next
    case False
    from Suc.prems have "n div 10 < 10 ^ Suc d" by (simp add: less_mult_imp_div_less mult.commute)
    from Suc.IH [OF this] False show ?thesis
      by (simp add: digits_of_large decimal_padded_Suc [of "Suc d"])
  qed
qed

lemma length_decimal_padded: "length (decimal_padded d n) = d"
  by (simp add: decimal_padded_def)

subsection \<open>HOTP against its description\<close>

lemma generateHOTP_eq_spec:
  assumes "representable counter" and "0 < digits t" and "digits t \<le> 22"
  shows "generateHOTP t counter = Returns (hotp_spec t counter)"
proof -
  define h where "h = hmac (base32Decode (secret t)) (intToBytes counter)"
  define d where "d = nat (digits t) - 1"
  have dd: "nat (digits t) = Suc d" using assms(2) by (simp add: d_def)
  have l: "length h = 20" by (simp add: h_def)
  define v where "v = truncate_spec h mod 10 ^ Suc d"
  have v: "0 \<le> v" "v < 10 ^ Suc d" by (simp_all add: v_def)
  have p: "pow10 (digits t) = Returns (10 ^ Suc d)"
    unfolding pow10_def dd using assms(2,3) by simp
  have r: "js_rem (sint (hotp_code h (hotp_offset h))) (10 ^ Suc d) = v"
    using truncation_eq [OF l] by (simp add: js_rem_nonneg v_def)
  have n: "nat v < 10 ^ Suc d" using v by (simp add: nat_less_iff)
  have "digit_char 0 = CHR ''0''" by (simp add: digit_char_def char_of_eq_iff)
  then have c: "CHR ''0'' = digit_char 0" by (rule sym)
  have "generateHOTP t counter = Returns (padStart (toString v) (digits t) CHR ''0'')"
    unfolding generateHOTP_def Let_def h_def [symmetric] p outcome.case r
    using assms(1) by simp
  also have "padStart (toString v) (digits t) CHR ''0'' = decimal_padded (Suc d) (nat v)"
    using v(1) padStart_decimal [OF n] by (simp add: padStart_def toString_def dd c)
  also have "decimal_padded (Suc d) (nat v) = hotp_spec t counter"
    unfolding hotp_spec_def Let_def hmac_eq [symmetric] intToBytes_eq [symmetric]
      h_def [symmetric] dd v_def ..
  finally show ?thesis .
qed

text \<open>
  C1: for a counter from 0 to \<open>2 ^ 53\<close> and \<open>digits\<close> from 1 to 22 (where the powers
  of ten are exact doubles), \<open>generateHOTP\<close> returns the string of the
  description: the secret Base32-decoded, the counter on 8 bytes big-endian, the
  HMAC, the offset \<open>hmac[19] & 0x0F\<close>, the four bytes from the offset on as a
  big-endian number without its top bit, reduced modulo \<open>10 ^ digits\<close> and written
  on exactly \<open>digits\<close> decimal digits, zero-padded on the left.
\<close>

theorem generateHOTP_refines_spec:
  assumes "0 \<le> counter" and "counter \<le> 2 ^ 53" and "0 < digits t" and "digits t \<le> 22"
  shows "generateHOTP t counter = Returns (hotp_spec t counter) \<and>
         length (hotp_spec t counter) = nat (digits t)"
proof -
  have "representable counter" using assms(1,2) by (simp add: representable_def)
  then have "generateHOTP t counter = Returns (hotp_spec t counter)"
    using assms(3,4) by (rule generateHOTP_eq_spec)
  moreover have "length (hotp_spec t counter) = nat (digits t)"
    by (simp add: hotp_spec_def Let_def length_decimal_padded)
  ultimately show ?thesis by simp
qed

theorem generateHOTP_refines_spec_witness:
  "(0::int) \<le> 1 \<and> (1::int) \<le> 2 ^ 53 \<and> 0 < digits demo \<and> digits demo \<le> 22 \<and>
   generateHOTP demo 1 = Returns (hotp_spec demo 1) \<and> length (hotp_spec demo 1) = 6"
  using generateHOTP_refines_spec [of 1 demo] by (simp add: demo_def)

subsection \<open>Verification\<close>

lemma generateHOTP_returns:
  assumes "representable counter" and "0 \<le> digits t" and "digits t \<le> 22"
  shows "\<exists>code. generateHOTP t counter = Returns code"
  using assms by (simp add: generateHOTP_def pow10_def Let_def)

lemma exact_sum: "exact a \<Longrightarrow> exact b \<Longrightarrow> representable (a + b)"
  by (simp add: exact_def representable_def)

lemma div_bounded_pos:
  fixes a b k :: int
  assumes "- k \<le> a" and "a \<le> k" and "0 < b"
  shows "- k \<le> a div b \<and> a div b \<le> k"
proof -
  have k: "0 \<le> k" using assms(1,2) by simp
  have "a div b \<le> k div b" using assms(2,3) by (rule zdiv_mono1)
  also have "k div b \<le> k div 1" using k assms(3) by (intro zdiv_mono2) simp_all
  finally have u: "a div b \<le> k" by simp
  have "- k div 1 \<le> - k div b"
  proof (cases "k = 0")
    case True
    then show ?thesis by simp
  next
    case False
    with k have "- k < 0" by simp
    then show ?thesis using assms(3) by (intro zdiv_mono2_neg) simp_all
  qed
  also have "- k div b \<le> a div b" using assms(1,3) by (rule zdiv_mono1)
  finally have "- k \<le> a div b" by simp
  with u show ?thesis by simp
qed

lemma exact_div: "exact a \<Longrightarrow> b \<noteq> 0 \<Longrightarrow> exact (a div b)"
proof -
  assume a: "exact a" and b: "b \<noteq> 0"
  from a have r: "- (2 ^ 51) \<le> a" "a \<le> 2 ^ 51" "- (2 ^ 51) \<le> - a" "- a \<le> 2 ^ 51"
    by (simp_all add: exact_def abs_le_iff)
  show ?thesis
  proof (cases "0 < b")
    case True
    from div_bounded_pos [OF r(1,2) True] show ?thesis by (simp add: exact_def abs_le_iff)
  next
    case False
    with b have "0 < - b" by simp
    from div_bounded_pos [OF r(3,4) this] show ?thesis
      by (simp add: exact_def abs_le_iff)
  qed
qed

lemma verify_loop_returns:
  "exact counter \<Longrightarrow> exact window \<Longrightarrow> 0 \<le> digits t \<Longrightarrow> digits t \<le> 22 \<Longrightarrow> - window \<le> i \<Longrightarrow>
     verify_loop t token counter window i
       = Returns (\<exists>j\<in>{i .. window}. generateHOTP t (counter + j) = Returns token)"
proof (induction t token counter window i rule: verify_loop.induct)
  case (1 t token counter window i)
  note g = "1.prems"(1,2)
  show ?case
  proof (cases "i \<le> window")
    case False
    then show ?thesis using g by (simp add: verify_loop.simps [of t token counter window i])
  next
    case le: True
    have xi: "exact i" using le "1.prems"(5) g(2) by (simp add: exact_def)
    obtain code where c: "generateHOTP t (counter + i) = Returns code"
      using generateHOTP_returns [OF exact_sum [OF g(1) xi] "1.prems"(3,4)] by blast
    show ?thesis
    proof (cases "code = token")
      case True
      with le c g xi show ?thesis
        by (auto simp add: verify_loop.simps [of t token counter window i])
    next
      case False
      have s: "{i .. window} = insert i {i + 1 .. window}" using le by auto
      have "verify_loop t token counter window (i + 1)
          = Returns (\<exists>j\<in>{i + 1 .. window}. generateHOTP t (counter + j) = Returns token)"
        using "1.IH" [of "counter + i" code] g xi le c False "1.prems" by simp
      with False le c g xi show ?thesis
        by (simp add: verify_loop.simps [of t token counter window i] s)
    qed
  qed
qed

lemma verify_returns:
  assumes "exact timestamp" and "exact (period t)" and "period t \<noteq> 0" and "exact window"
    and "0 \<le> digits t" and "digits t \<le> 22"
  shows "verify t token window timestamp =
     Returns (\<exists>i\<in>{- window .. window}.
        generateHOTP t (\<lfloor>real_of_int timestamp / 1000 / real_of_int (period t)\<rfloor> + i) = Returns token)"
proof -
  define c where "c = \<lfloor>real_of_int timestamp / 1000 / real_of_int (period t)\<rfloor>"
  have cc: "currentCounter t timestamp = Returns c"
    unfolding c_def using assms(1-3) by (rule currentCounter_floor)
  have "exact c"
    unfolding c_def floor_quotient using assms(1,3) by (intro exact_div) simp_all
  from verify_loop_returns [OF this assms(4-6), of "- window" token]
  show ?thesis by (simp add: verify_def cc c_def)
qed

lemma demo_counter_0: "generateHOTP demo 0 = Returns (hotp_spec demo 0)"
  by (rule generateHOTP_eq_spec) (simp_all add: demo_def representable_def)

text \<open>
  C3: for a timestamp, a period other than 0 and a window up to \<open>2 ^ 51\<close> in
  magnitude and \<open>digits\<close> from 0 to 22, \<open>verify\<close> returns a boolean, and it is true
  exactly when \<open>generateHOTP (counter + i)\<close> returns the token for some offset \<open>i\<close>
  between \<open>-window\<close> and \<open>window\<close>, where \<open>counter\<close> is
  \<open>floor(timestamp / 1000 / period)\<close>. The loop starts at \<open>-window\<close>, goes up by one
  and stops at the first match; without a match the result is false.
\<close>

theorem verify_iff:
  assumes "\<bar>timestamp\<bar> \<le> 2 ^ 51" and "period t \<noteq> 0" and "\<bar>period t\<bar> \<le> 2 ^ 51"
    and "\<bar>window\<bar> \<le> 2 ^ 51" and "0 \<le> digits t" and "digits t \<le> 22"
  shows "verify t token window timestamp =
     Returns (\<exists>i\<in>{- window .. window}.
        generateHOTP t (\<lfloor>real_of_int timestamp / 1000 / real_of_int (period t)\<rfloor> + i) = Returns token)"
  using assms by (intro verify_returns) (simp_all add: exact_def)

theorem verify_iff_witness:
  "\<bar>30000 :: int\<bar> \<le> 2 ^ 51 \<and> period demo \<noteq> 0 \<and> \<bar>period demo\<bar> \<le> 2 ^ 51 \<and> \<bar>1 :: int\<bar> \<le> 2 ^ 51 \<and>
   0 \<le> digits demo \<and> digits demo \<le> 22 \<and>
   verify demo (hotp_spec demo 0) 1 30000 = Returns True"
proof -
  have f: "\<lfloor>real_of_int 30000 / 1000 / real_of_int (period demo)\<rfloor> = 1"
    unfolding floor_quotient by (simp add: demo_def)
  have "(- 1 :: int) \<in> {- 1 .. 1}" by simp
  moreover have "generateHOTP demo (1 + (- 1)) = Returns (hotp_spec demo 0)"
    using demo_counter_0 by simp
  ultimately have "\<exists>i\<in>{- 1 .. 1 :: int}. generateHOTP demo (1 + i) = Returns (hotp_spec demo 0)"
    by (rule bexI [rotated])
  then show ?thesis
    using verify_iff [of 30000 demo 1 "hotp_spec demo 0"] unfolding f by (simp add: demo_def)
qed


end
